theory Spec2Isabelle
  imports
    Complex_Main
    "HOL-Library.Sublist"
    "HOL-Library.Char_ord"
    "HOL-Library.List_Lexorder"
    "HOL-Library.Product_Lexorder"
begin

section \<open>NetPulse: the network sampling and metrics engine of main.py\<close>

text \<open>
  The development embeds the engine functions of \<^verbatim>\<open>main.py\<close>:
  \<^verbatim>\<open>pick_active_adapter_name\<close>, \<^verbatim>\<open>ping_once\<close>, \<^verbatim>\<open>quality_color\<close>,
  \<^verbatim>\<open>split_series_by_quality\<close> and the methods \<^verbatim>\<open>tick_stats\<close>, \<^verbatim>\<open>request_ping\<close> and
  \<^verbatim>\<open>on_ping_done\<close> of \<^verbatim>\<open>NetPulseWindow\<close>, together with the part of \<^verbatim>\<open>__init__\<close> that
  creates the engine fields.

  Conventions of the embedding.
  \<^item> A Python \<^verbatim>\<open>str\<close> is a \<^typ>\<open>string\<close> holding the UTF-8 bytes of the text. Substring
    search, prefixes, suffixes, removal of an ASCII character and the comparison of two
    strings agree on code points and on their UTF-8 bytes.
  \<^item> \<^verbatim>\<open>str.lower\<close> is modelled on the ASCII letters; other bytes are left as they are.
  \<^item> A Python \<^verbatim>\<open>int\<close> is an \<^typ>\<open>int\<close>.
  \<^item> A Python \<^verbatim>\<open>float\<close> that is known to be finite (a byte rate, a clock reading) is a
    \<^typ>\<open>real\<close>: arithmetic is exact, the rounding of binary64 is not modelled. Where the
    source tests for or produces not-a-number or an infinity, the value is a \<open>pyfloat\<close>.
  \<^item> What the operating system reports (psutil's tables, the clocks, the outcome of the
    ping process) is an argument of the function that reads it.
\<close>

subsection \<open>Strings\<close>

definition lower_char :: "char \<Rightarrow> char" where
  "lower_char c =
     (case map_of (zip ''ABCDEFGHIJKLMNOPQRSTUVWXYZ'' ''abcdefghijklmnopqrstuvwxyz'') c of
        Some d \<Rightarrow> d
      | None \<Rightarrow> c)"

definition lower :: "string \<Rightarrow> string" where
  "lower s = map lower_char s"

text \<open>\<^verbatim>\<open>sub in s\<close>: \<open>sub\<close> occurs in \<open>s\<close> as a contiguous substring.\<close>

fun str_contains :: "string \<Rightarrow> string \<Rightarrow> bool" where
  "str_contains sub [] = (sub = [])"
| "str_contains sub (c # cs) = (prefix sub (c # cs) \<or> str_contains sub cs)"



subsection \<open>Floats that may be not-a-number or infinite\<close>

datatype pyfloat = Fin real | PInf | NInf | NaN

fun isnan :: "pyfloat \<Rightarrow> bool" where
  "isnan NaN = True"
| "isnan _ = False"

fun isinf :: "pyfloat \<Rightarrow> bool" where
  "isinf PInf = True"
| "isinf NInf = True"
| "isinf _ = False"

text \<open>\<^verbatim>\<open>v <= t\<close> and \<^verbatim>\<open>v >= t\<close> for a float \<open>v\<close> and a finite threshold \<open>t\<close>; every
  comparison with not-a-number is false.\<close>

fun float_le :: "pyfloat \<Rightarrow> real \<Rightarrow> bool" where
  "float_le (Fin v) t = (v \<le> t)"
| "float_le NInf t = True"
| "float_le PInf t = False"
| "float_le NaN t = False"

fun float_ge :: "pyfloat \<Rightarrow> real \<Rightarrow> bool" where
  "float_ge (Fin v) t = (v \<ge> t)"
| "float_ge PInf t = True"
| "float_ge NInf t = False"
| "float_ge NaN t = False"

subsection \<open>Adapter enumerator: \<^verbatim>\<open>pick_active_adapter_name\<close>\<close>

text \<open>
  \<^verbatim>\<open>psutil.net_if_stats()\<close> is a dictionary from interface names to records with the fields
  \<^verbatim>\<open>isup\<close> and \<^verbatim>\<open>speed\<close>; its enumeration order matters, so it is an association list (with
  distinct keys). \<^verbatim>\<open>psutil.net_if_addrs()\<close> is only looked up by name, so it is a map. Of an
  address the source reads \<^verbatim>\<open>family\<close> and \<^verbatim>\<open>address\<close>: \<open>family\<close> is the text
  \<^verbatim>\<open>str(fam)\<close> of a family that is present and truthy, and \<open>None\<close> otherwise; \<open>address\<close>
  is \<open>None\<close> when the attribute is \<^verbatim>\<open>None\<close>.
\<close>

record snicstats =
  isup :: bool
  speed :: int

record snicaddr =
  family :: "string option"
  address :: "string option"

definition deny_list :: "string list" where
  "deny_list = [''virtual'', ''vmware'', ''hyper-v'', ''vbox'', ''loopback'', ''tunnel'',
                ''tap'', ''tun'', ''vpn'', ''wintun'', ''wireguard'']"

text \<open>The two \<^verbatim>\<open>continue\<close> tests on the name of an interface that is up.\<close>

definition skipped :: "string \<Rightarrow> bool" where
  "skipped name =
     (prefix ''lo'' (lower name) \<or> prefix ''loopback'' (lower name) \<or>
      list_ex (\<lambda>x. str_contains x (lower name)) deny_list)"

definition counts_as_ipv4 :: "snicaddr \<Rightarrow> bool" where
  "counts_as_ipv4 a =
     (case family a of
        None \<Rightarrow> False
      | Some fam \<Rightarrow>
          suffix ''AF_INET'' fam \<and>
          (case address a of
             None \<Rightarrow> False
           | Some ad \<Rightarrow> ad \<noteq> [] \<and> ad \<noteq> ''127.0.0.1''))"

definition ip_score_of :: "snicaddr list \<Rightarrow> int" where
  "ip_score_of as =
     fold (\<lambda>a ip_score. if counts_as_ipv4 a then ip_score + 10 else ip_score) as 0"

fun candidates_of ::
  "(string \<times> snicstats) list \<Rightarrow> (string \<rightharpoonup> snicaddr list) \<Rightarrow> (real \<times> string) list" where
  "candidates_of [] addrs = []"
| "candidates_of ((name, st) # rest) addrs =
     (if \<not> isup st then candidates_of rest addrs
      else if skipped name then candidates_of rest addrs
      else
        (let ip_score = ip_score_of (case addrs name of None \<Rightarrow> [] | Some as \<Rightarrow> as);
             speed_score = (if speed st \<noteq> 0 then speed st else 0)
         in (real_of_int ip_score + real_of_int speed_score / 10, name)
              # candidates_of rest addrs))"

text \<open>The sentinel returned when no interface is up: the UTF-8 bytes of the Russian
  text for "no network".\<close>

definition NO_NETWORK :: string where
  "NO_NETWORK = [CHR 0xD0, CHR 0x9D, CHR 0xD0, CHR 0xB5, CHR 0xD1, CHR 0x82, CHR 0x20,
                 CHR 0xD1, CHR 0x81, CHR 0xD0, CHR 0xB5, CHR 0xD1, CHR 0x82, CHR 0xD0, CHR 0xB8]"

fun first_up :: "(string \<times> snicstats) list \<Rightarrow> string" where
  "first_up [] = NO_NETWORK"
| "first_up ((name, st) # rest) = (if isup st then name else first_up rest)"

text \<open>
  \<^verbatim>\<open>candidates.sort(reverse=True)\<close> orders the pairs \<^verbatim>\<open>(score, name)\<close> downwards, pairs
  being compared by score first and by name second; \<^verbatim>\<open>candidates[0][1]\<close> is the name of
  the first pair.
\<close>

definition pick_active_adapter_name ::
  "(string \<times> snicstats) list \<Rightarrow> (string \<rightharpoonup> snicaddr list) \<Rightarrow> string" where
  "pick_active_adapter_name stats addrs =
     (case rev (sort (candidates_of stats addrs)) of
        [] \<Rightarrow> first_up stats
      | c # _ \<Rightarrow> snd c)"


subsection \<open>Latency prober: \<^verbatim>\<open>ping_once\<close>\<close>

text \<open>
  The exceptions (subclasses of \<^verbatim>\<open>Exception\<close>) that the body of \<^verbatim>\<open>ping_once\<close> can meet:
  \<^verbatim>\<open>subprocess.run\<close> failing to launch the process, and the conversions
  \<^verbatim>\<open>float(val)\<close>, \<^verbatim>\<open>round\<close> and \<^verbatim>\<open>int\<close> rejecting their argument.
\<close>

datatype py_exception = OSError | ValueError | OverflowError



























subsection \<open>Quality classifier: \<^verbatim>\<open>quality_color\<close> and \<^verbatim>\<open>split_series_by_quality\<close>\<close>

definition GREEN :: string where "GREEN = ''#4dff88''"
definition YELLOW :: string where "YELLOW = ''#ffd24d''"
definition RED :: string where "RED = ''#ff4d4d''"

text \<open>
  The value is \<^verbatim>\<open>None\<close> or a number; the number is taken after the conversion
  \<^verbatim>\<open>float(value)\<close>, which leaves a float as it is. The thresholds are the configured numbers
  of the settings. Green is the tier Good, yellow Acceptable, red Poor; \<open>invert\<close> is the
  direction "lower is better".
\<close>

definition quality_color :: "pyfloat option \<Rightarrow> real \<Rightarrow> real \<Rightarrow> bool \<Rightarrow> string" where
  "quality_color val good ok invert =
     (case val of
        None \<Rightarrow> RED
      | Some v \<Rightarrow>
          if isnan v \<or> isinf v then RED
          else if invert then
            (if float_le v good then GREEN
             else if float_le v ok then YELLOW
             else RED)
          else
            (if float_ge v good then GREEN
             else if float_ge v ok then YELLOW
             else RED))"

text \<open>One round of the loop over \<^verbatim>\<open>zip(xs, ys)\<close>: the point is appended to each of the
  three series, with its value in the series of its colour and not-a-number in the others.\<close>

type_synonym 'x series = "'x list \<times> pyfloat list"

definition split_step ::
  "real \<Rightarrow> real \<Rightarrow> bool \<Rightarrow> 'x \<times> pyfloat \<Rightarrow>
   'x series \<times> 'x series \<times> 'x series \<Rightarrow> 'x series \<times> 'x series \<times> 'x series" where
  "split_step good ok invert p acc =
     (case (p, acc) of ((x, y), ((x_g, y_g), (x_y, y_y), (x_r, y_r))) \<Rightarrow>
        (let col = quality_color (Some y) good ok invert in
         if col = GREEN then
           ((x_g @ [x], y_g @ [y]), (x_y @ [x], y_y @ [NaN]), (x_r @ [x], y_r @ [NaN]))
         else if col = YELLOW then
           ((x_g @ [x], y_g @ [NaN]), (x_y @ [x], y_y @ [y]), (x_r @ [x], y_r @ [NaN]))
         else
           ((x_g @ [x], y_g @ [NaN]), (x_y @ [x], y_y @ [NaN]), (x_r @ [x], y_r @ [y]))))"

definition split_series_by_quality ::
  "'x list \<Rightarrow> pyfloat list \<Rightarrow> real \<Rightarrow> real \<Rightarrow> bool \<Rightarrow> 'x series \<times> 'x series \<times> 'x series" where
  "split_series_by_quality xs ys good ok invert =
     fold (split_step good ok invert) (zip xs ys) (([], []), ([], []), ([], []))"

text \<open>
  The reference for one series, in the words of the specification: the value at an index
  is the original value if the tier of that sample is the tier of the series, and the
  gap marker (not-a-number) otherwise.
\<close>

definition series_value :: "real \<Rightarrow> real \<Rightarrow> bool \<Rightarrow> string \<Rightarrow> pyfloat \<Rightarrow> pyfloat" where
  "series_value good ok invert col y =
     (if quality_color (Some y) good ok invert = col then y else NaN)"

subsection \<open>History buffers: \<^verbatim>\<open>collections.deque\<close> with \<^verbatim>\<open>maxlen\<close>\<close>

text \<open>
  \<^verbatim>\<open>deque(iterable, maxlen=n)\<close> keeps the last \<open>n\<close> elements of the iterable.
  \<^verbatim>\<open>append\<close> adds the element on the right and, when the deque is then longer than
  \<open>maxlen\<close>, discards one element from the left.
\<close>

record 'a deque =
  items :: "'a list"
  maxlen :: nat

definition deque_init :: "'a list \<Rightarrow> nat \<Rightarrow> 'a deque" where
  "deque_init xs n = \<lparr>items = drop (length xs - n) xs, maxlen = n\<rparr>"

definition deque_append :: "'a deque \<Rightarrow> 'a \<Rightarrow> 'a deque" where
  "deque_append d x =
     (let ys = items d @ [x]
      in d\<lparr>items := (if length ys > maxlen d then tl ys else ys)\<rparr>)"

subsection \<open>The engine state of \<^verbatim>\<open>NetPulseWindow\<close>\<close>

text \<open>
  \<^verbatim>\<open>psutil.net_io_counters\<close> reports cumulative byte counters (\<open>snetio\<close>). The record
  \<open>window\<close> holds the engine fields that \<^verbatim>\<open>__init__\<close> creates, together with the two
  adapter choices of the settings object that the engine reads
  (\<open>simple_adapter\<close>, \<open>graph_adapter\<close>). The dictionaries keyed by adapter name are maps.
  A \<open>tick_input\<close> is what one tick reads from the operating system: psutil's tables, the
  monotonic clock and the wall clock. The interface table is read once per tick: the
  later calls of \<^verbatim>\<open>psutil.net_if_stats()\<close> in \<^verbatim>\<open>_resolve_adapter\<close> see the same
  table. \<^verbatim>\<open>pernic\<close> is a dictionary, so its names are distinct; the theorems that
  follow one adapter through the loop assume it.
\<close>

record snetio =
  bytes_sent :: int
  bytes_recv :: int

record window =
  active_adapter :: string
  simple_adapter :: string
  graph_adapter :: string
  nic_last :: "string \<rightharpoonup> int \<times> int \<times> real"
  nic_speed_total_mbps :: "string \<rightharpoonup> real"
  nic_speed_down_mbps :: "string \<rightharpoonup> real"
  nic_speed_up_mbps :: "string \<rightharpoonup> real"
  nic_sent_mb :: "string \<rightharpoonup> real"
  nic_recv_mb :: "string \<rightharpoonup> real"
  total_sent_mb :: real
  total_recv_mb :: real
  last_ping_ms :: "int option"
  last_mbps_simple_total :: real
  last_mbps_simple_down :: real
  last_mbps_simple_up :: real
  last_mbps_graph_total :: real
  last_mbps_graph_down :: real
  last_mbps_graph_up :: real
  simple_smooth_len :: nat
  simple_hist_total :: "real deque"
  simple_hist_down :: "real deque"
  simple_hist_up :: "real deque"
  ping_sent :: int
  ping_ok :: int
  ping_fail :: int
  buf_len :: nat
  t_hist :: "real deque"
  mbps_hist :: "real deque"
  ping_hist :: "pyfloat deque"

record tick_input =
  if_stats :: "(string \<times> snicstats) list"
  if_addrs :: "string \<rightharpoonup> snicaddr list"
  pernic :: "(string \<times> snetio) list"
  tmono :: real
  twall :: real
  io :: snetio

text \<open>The engine part of \<^verbatim>\<open>__init__\<close>; of the input it reads the interface tables, the
  global counters and the wall clock.\<close>

definition init_window :: "string \<Rightarrow> string \<Rightarrow> tick_input \<Rightarrow> window" where
  "init_window simple graph inp =
     \<lparr>active_adapter = pick_active_adapter_name (if_stats inp) (if_addrs inp),
      simple_adapter = simple,
      graph_adapter = graph,
      nic_last = Map.empty,
      nic_speed_total_mbps = Map.empty,
      nic_speed_down_mbps = Map.empty,
      nic_speed_up_mbps = Map.empty,
      nic_sent_mb = Map.empty,
      nic_recv_mb = Map.empty,
      total_sent_mb = real_of_int (bytes_sent (io inp)) / (1024 * 1024),
      total_recv_mb = real_of_int (bytes_recv (io inp)) / (1024 * 1024),
      last_ping_ms = None,
      last_mbps_simple_total = 0,
      last_mbps_simple_down = 0,
      last_mbps_simple_up = 0,
      last_mbps_graph_total = 0,
      last_mbps_graph_down = 0,
      last_mbps_graph_up = 0,
      simple_smooth_len = 10,
      simple_hist_total = deque_init (replicate 10 0) 10,
      simple_hist_down = deque_init (replicate 10 0) 10,
      simple_hist_up = deque_init (replicate 10 0) 10,
      ping_sent = 0,
      ping_ok = 0,
      ping_fail = 0,
      buf_len = 240,
      t_hist = deque_init (replicate 240 (twall inp)) 240,
      mbps_hist = deque_init (replicate 240 0) 240,
      ping_hist = deque_init (replicate 240 NaN) 240\<rparr>"

text \<open>\<^verbatim>\<open>_resolve_adapter\<close>: an empty choice, the choice \<^verbatim>\<open>"active"\<close> and a name that
  \<^verbatim>\<open>psutil.net_if_stats()\<close> does not list resolve to the active adapter.\<close>

definition resolve_adapter :: "window \<Rightarrow> (string \<times> snicstats) list \<Rightarrow> string \<Rightarrow> string" where
  "resolve_adapter w stats val =
     (let v = (if val = [] then ''active'' else val)
      in if v = ''active'' then active_adapter w
         else if v \<notin> fst ` set stats then active_adapter w
         else v)"

subsection \<open>Rate sampler: \<^verbatim>\<open>tick_stats\<close>\<close>

text \<open>The body of the loop over \<^verbatim>\<open>pernic.items()\<close>, for one adapter and its counters.\<close>

definition sample_nic :: "real \<Rightarrow> string \<times> snetio \<Rightarrow> window \<Rightarrow> window" where
  "sample_nic tm p w =
     (case p of (nic, c) \<Rightarrow>
        (let sent = bytes_sent c; recv = bytes_recv c in
         case nic_last w nic of
           None \<Rightarrow>
             w\<lparr>nic_last := (nic_last w)(nic \<mapsto> (sent, recv, tm)),
               nic_speed_total_mbps := (nic_speed_total_mbps w)(nic \<mapsto> 0),
               nic_speed_down_mbps := (nic_speed_down_mbps w)(nic \<mapsto> 0),
               nic_speed_up_mbps := (nic_speed_up_mbps w)(nic \<mapsto> 0),
               nic_sent_mb := (nic_sent_mb w)(nic \<mapsto> real_of_int sent / (1024 * 1024)),
               nic_recv_mb := (nic_recv_mb w)(nic \<mapsto> real_of_int recv / (1024 * 1024))\<rparr>
         | Some (psent, precv, ptm) \<Rightarrow>
             (let dt = max 0.050 (tm - ptm);
                  d_sent = max 0 (sent - psent);
                  d_recv = max 0 (recv - precv);
                  up_mbps = (real_of_int d_sent * 8.0) / dt / 1000000.0;
                  down_mbps = (real_of_int d_recv * 8.0) / dt / 1000000.0;
                  total_mbps = up_mbps + down_mbps
              in w\<lparr>nic_speed_up_mbps := (nic_speed_up_mbps w)(nic \<mapsto> max 0.0 up_mbps),
                   nic_speed_down_mbps := (nic_speed_down_mbps w)(nic \<mapsto> max 0.0 down_mbps),
                   nic_speed_total_mbps := (nic_speed_total_mbps w)(nic \<mapsto> max 0.0 total_mbps),
                   nic_sent_mb := (nic_sent_mb w)(nic \<mapsto> real_of_int sent / (1024 * 1024)),
                   nic_recv_mb := (nic_recv_mb w)(nic \<mapsto> real_of_int recv / (1024 * 1024)),
                   nic_last := (nic_last w)(nic \<mapsto> (sent, recv, tm))\<rparr>)))"

definition sample_all :: "tick_input \<Rightarrow> window \<Rightarrow> window" where
  "sample_all inp w = fold (sample_nic (tmono inp)) (pernic inp) w"

text \<open>\<^verbatim>\<open>d.get(nic, 0.0)\<close> on one of the rate dictionaries.\<close>

definition get_rate :: "(string \<rightharpoonup> real) \<Rightarrow> string \<Rightarrow> real" where
  "get_rate m nic = (case m nic of None \<Rightarrow> 0.0 | Some r \<Rightarrow> r)"

definition tick_stats :: "tick_input \<Rightarrow> window \<Rightarrow> window" where
  "tick_stats inp w0 =
     (let new_adapter = pick_active_adapter_name (if_stats inp) (if_addrs inp);
          w1 = (if new_adapter \<noteq> active_adapter w0 then w0\<lparr>active_adapter := new_adapter\<rparr> else w0);
          w2 = sample_all inp w1;
          w3 = w2\<lparr>total_sent_mb := real_of_int (bytes_sent (io inp)) / (1024 * 1024),
                  total_recv_mb := real_of_int (bytes_recv (io inp)) / (1024 * 1024)\<rparr>;
          simple_nic = resolve_adapter w3 (if_stats inp) (simple_adapter w3);
          w4 = w3\<lparr>last_mbps_simple_total := get_rate (nic_speed_total_mbps w3) simple_nic,
                  last_mbps_simple_down := get_rate (nic_speed_down_mbps w3) simple_nic,
                  last_mbps_simple_up := get_rate (nic_speed_up_mbps w3) simple_nic\<rparr>;
          w5 = w4\<lparr>simple_hist_total := deque_append (simple_hist_total w4) (last_mbps_simple_total w4),
                  simple_hist_down := deque_append (simple_hist_down w4) (last_mbps_simple_down w4),
                  simple_hist_up := deque_append (simple_hist_up w4) (last_mbps_simple_up w4)\<rparr>;
          graph_nic = resolve_adapter w5 (if_stats inp) (graph_adapter w5);
          w6 = w5\<lparr>last_mbps_graph_total := get_rate (nic_speed_total_mbps w5) graph_nic\<rparr>
      in w6\<lparr>t_hist := deque_append (t_hist w6) (twall inp),
            mbps_hist := deque_append (mbps_hist w6) (last_mbps_graph_total w6),
            ping_hist := deque_append (ping_hist w6)
              (case last_ping_ms w6 of None \<Rightarrow> NaN | Some ms \<Rightarrow> Fin (real_of_int ms))\<rparr>)"

subsection \<open>Latency probes: \<^verbatim>\<open>request_ping\<close> and \<^verbatim>\<open>on_ping_done\<close>\<close>

text \<open>
  \<^verbatim>\<open>request_ping\<close> counts the probe and starts a task on the thread pool; the task emits
  its result once, which the event loop delivers to \<^verbatim>\<open>on_ping_done\<close>. The result is an
  integer or \<^verbatim>\<open>None\<close>.
\<close>

definition request_ping :: "window \<Rightarrow> window" where
  "request_ping w = w\<lparr>ping_sent := ping_sent w + 1\<rparr>"

definition on_ping_done :: "int option \<Rightarrow> window \<Rightarrow> window" where
  "on_ping_done ms w =
     (case ms of
        Some n \<Rightarrow> w\<lparr>last_ping_ms := Some n, ping_ok := ping_ok w + 1\<rparr>
      | None \<Rightarrow> w\<lparr>last_ping_ms := None, ping_fail := ping_fail w + 1\<rparr>)"

text \<open>
  The states the window can reach. All methods run on the single control thread, so the
  events are serialised: a stats tick, a probe dispatch, the delivery of a probe's result
  and a change of the adapter choices by the settings dialog. The second component counts
  the probes started on the thread pool whose result has not been delivered yet; a result
  is delivered only for a probe that was started.
\<close>

inductive reachable :: "window \<Rightarrow> nat \<Rightarrow> bool" where
  start: "reachable (init_window simple graph inp) 0"
| stats_tick: "reachable w k \<Longrightarrow> reachable (tick_stats inp w) k"
| ping_tick: "reachable w k \<Longrightarrow> reachable (request_ping w) (Suc k)"
| ping_done: "reachable w (Suc k) \<Longrightarrow> reachable (on_ping_done ms w) k"
| settings: "reachable w k \<Longrightarrow> reachable (w\<lparr>simple_adapter := simple, graph_adapter := graph\<rparr>) k"

subsection \<open>Reference definitions and invariants\<close>

text \<open>
  The rates of an adapter seen before, in the words of the specification: the elapsed
  time is floored at 50 ms, a negative byte delta is clamped to zero, and the rates are
  the deltas in bits per second, in Mbps.
\<close>

definition rate_ref :: "real \<Rightarrow> int \<Rightarrow> int \<Rightarrow> real \<Rightarrow> int \<Rightarrow> int \<Rightarrow> real \<times> real \<times> real" where
  "rate_ref now sent recv lastTimestamp lastSent lastRecv =
     (let dt = max 0.050 (now - lastTimestamp);
          deltaSent = max 0 (sent - lastSent);
          deltaRecv = max 0 (recv - lastRecv);
          upMbps = real_of_int deltaSent * 8 / dt / 1000000;
          downMbps = real_of_int deltaRecv * 8 / dt / 1000000
      in (upMbps, downMbps, upMbps + downMbps))"

text \<open>What the sampler keeps for one adapter: the baseline and the three rates.\<close>

definition nic_view ::
  "window \<Rightarrow> string \<Rightarrow> (int \<times> int \<times> real) option \<times> real option \<times> real option \<times> real option" where
  "nic_view w nic =
     (nic_last w nic, nic_speed_up_mbps w nic, nic_speed_down_mbps w nic,
      nic_speed_total_mbps w nic)"

definition rates_nonneg :: "window \<Rightarrow> bool" where
  "rates_nonneg w \<longleftrightarrow>
     (\<forall>nic r. nic_speed_up_mbps w nic = Some r \<longrightarrow> 0 \<le> r) \<and>
     (\<forall>nic r. nic_speed_down_mbps w nic = Some r \<longrightarrow> 0 \<le> r) \<and>
     (\<forall>nic r. nic_speed_total_mbps w nic = Some r \<longrightarrow> 0 \<le> r)"

text \<open>Every history buffer holds exactly its capacity.\<close>

definition bufs_full :: "window \<Rightarrow> bool" where
  "bufs_full w \<longleftrightarrow>
     simple_smooth_len w = 10 \<and> buf_len w = 240 \<and>
     length (items (simple_hist_total w)) = 10 \<and> maxlen (simple_hist_total w) = 10 \<and>
     length (items (simple_hist_down w)) = 10 \<and> maxlen (simple_hist_down w) = 10 \<and>
     length (items (simple_hist_up w)) = 10 \<and> maxlen (simple_hist_up w) = 10 \<and>
     length (items (t_hist w)) = 240 \<and> maxlen (t_hist w) = 240 \<and>
     length (items (mbps_hist w)) = 240 \<and> maxlen (mbps_hist w) = 240 \<and>
     length (items (ping_hist w)) = 240 \<and> maxlen (ping_hist w) = 240"

text \<open>A tick input for a machine with the single adapter \<^verbatim>\<open>eth0\<close>, used in the scenarios.\<close>

definition eth0_tick :: "int \<Rightarrow> int \<Rightarrow> real \<Rightarrow> tick_input" where
  "eth0_tick sent recv t =
     \<lparr>if_stats = [(''eth0'', \<lparr>isup = True, speed = 1000\<rparr>)],
      if_addrs = Map.empty,
      pernic = [(''eth0'', \<lparr>bytes_sent = sent, bytes_recv = recv\<rparr>)],
      tmono = t,
      twall = t,
      io = \<lparr>bytes_sent = sent, bytes_recv = recv\<rparr>\<rparr>"

section \<open>Theorems\<close>

subsection \<open>Quality classifier\<close>

lemma colours_distinct: "GREEN \<noteq> YELLOW" "GREEN \<noteq> RED" "YELLOW \<noteq> RED"
  by (simp_all add: GREEN_def YELLOW_def RED_def)

text \<open>
  Claim C4. With "lower is better" a finite value is Good (green) exactly when it is at
  most \<open>good\<close>, Acceptable (yellow) exactly when it is above \<open>good\<close> and at most \<open>ok\<close>, and
  Poor (red) otherwise; with "higher is better" it is Good exactly when it is at least
  \<open>good\<close>, Acceptable exactly when it is at least \<open>ok\<close> and below \<open>good\<close>, and Poor
  otherwise. An absent, not-a-number or infinite value is Poor whatever the thresholds and
  the direction. With \<open>good = 5.0\<close> and \<open>ok = 0.5\<close> for a throughput, 3.0 is Acceptable,
  6.0 is Good and 0.1 is Poor.
\<close>

theorem quality_color_tiers:
  "(quality_color (Some (Fin v)) good ok True = GREEN \<longleftrightarrow> v \<le> good) \<and>
   (quality_color (Some (Fin v)) good ok True = YELLOW \<longleftrightarrow> good < v \<and> v \<le> ok) \<and>
   (quality_color (Some (Fin v)) good ok True = RED \<longleftrightarrow> good < v \<and> ok < v) \<and>
   (quality_color (Some (Fin v)) good ok False = GREEN \<longleftrightarrow> v \<ge> good) \<and>
   (quality_color (Some (Fin v)) good ok False = YELLOW \<longleftrightarrow> ok \<le> v \<and> v < good) \<and>
   (quality_color (Some (Fin v)) good ok False = RED \<longleftrightarrow> v < good \<and> v < ok) \<and>
   quality_color None good ok invert = RED \<and>
   quality_color (Some NaN) good ok invert = RED \<and>
   quality_color (Some PInf) good ok invert = RED \<and>
   quality_color (Some NInf) good ok invert = RED \<and>
   quality_color (Some (Fin 3.0)) 5.0 0.5 False = YELLOW \<and>
   quality_color (Some (Fin 6.0)) 5.0 0.5 False = GREEN \<and>
   quality_color (Some (Fin 0.1)) 5.0 0.5 False = RED"
  using colours_distinct by (auto simp add: quality_color_def)

lemma quality_color_cases:
  "quality_color v good ok invert = GREEN \<or> quality_color v good ok invert = YELLOW \<or>
   quality_color v good ok invert = RED"
  by (simp add: quality_color_def split: option.splits)

lemma split_step_eq:
  "split_step good ok invert (x, y) ((x_g, y_g), (x_y, y_y), (x_r, y_r)) =
     ((x_g @ [x], y_g @ [series_value good ok invert GREEN y]),
      (x_y @ [x], y_y @ [series_value good ok invert YELLOW y]),
      (x_r @ [x], y_r @ [series_value good ok invert RED y]))"
  using quality_color_cases [of "Some y" good ok invert] colours_distinct
  by (auto simp add: split_step_def series_value_def)

lemma split_fold:
  "fold (split_step good ok invert) zs ((x_g, y_g), (x_y, y_y), (x_r, y_r)) =
     ((x_g @ map fst zs, y_g @ map (\<lambda>p. series_value good ok invert GREEN (snd p)) zs),
      (x_y @ map fst zs, y_y @ map (\<lambda>p. series_value good ok invert YELLOW (snd p)) zs),
      (x_r @ map fst zs, y_r @ map (\<lambda>p. series_value good ok invert RED (snd p)) zs))"
proof (induction zs arbitrary: x_g y_g x_y y_y x_r y_r)
  case Nil
  show ?case by simp
next
  case (Cons p zs)
  obtain x y where p: "p = (x, y)" by (cases p)
  show ?case
    by (simp add: p split_step_eq Cons.IH)
qed

text \<open>The loop computes the three reference series.\<close>

lemma split_series_eq:
  assumes "length xs = length ys"
  shows "split_series_by_quality xs ys good ok invert =
     ((xs, map (series_value good ok invert GREEN) ys),
      (xs, map (series_value good ok invert YELLOW) ys),
      (xs, map (series_value good ok invert RED) ys))"
proof -
  have "map (\<lambda>p. series_value good ok invert c (snd p)) (zip xs ys) =
        map (series_value good ok invert c) ys" for c
    using assms by (simp add: map_snd_zip flip: map_map [unfolded comp_def])
  then show ?thesis
    using assms by (simp add: split_series_by_quality_def split_fold)
qed

text \<open>
  Claim C5. For a series of as many x-coordinates as values, the three series returned by
  \<^verbatim>\<open>split_series_by_quality\<close> have the x-coordinates of the input, in the same order,
  and as many values as the input. At every index the series of the sample's tier
  (green, yellow or red, as \<^verbatim>\<open>quality_color\<close> classifies the value) holds the original
  value and the other two hold not-a-number. The three colours are distinct, so exactly
  one of the three cases applies at each index.
\<close>

theorem split_series_partition:
  assumes "length xs = length ys"
  shows "case split_series_by_quality xs ys good ok invert of
           ((x_g, y_g), (x_y, y_y), (x_r, y_r)) \<Rightarrow>
             x_g = xs \<and> x_y = xs \<and> x_r = xs \<and>
             length y_g = length ys \<and> length y_y = length ys \<and> length y_r = length ys \<and>
             (\<forall>i < length ys.
                (quality_color (Some (ys ! i)) good ok invert = GREEN \<and>
                   y_g ! i = ys ! i \<and> y_y ! i = NaN \<and> y_r ! i = NaN) \<or>
                (quality_color (Some (ys ! i)) good ok invert = YELLOW \<and>
                   y_g ! i = NaN \<and> y_y ! i = ys ! i \<and> y_r ! i = NaN) \<or>
                (quality_color (Some (ys ! i)) good ok invert = RED \<and>
                   y_g ! i = NaN \<and> y_y ! i = NaN \<and> y_r ! i = ys ! i))"
  using quality_color_cases [of _ good ok invert] colours_distinct
  by (auto simp add: split_series_eq [OF assms] series_value_def)

theorem split_series_partition_witness:
  "split_series_by_quality [10, 11, 12 :: real] [Fin 6.0, Fin 3.0, NaN] 5.0 0.5 False =
     (([10, 11, 12], [Fin 6.0, NaN, NaN]),
      ([10, 11, 12], [NaN, Fin 3.0, NaN]),
      ([10, 11, 12], [NaN, NaN, NaN]))"
proof -
  have len: "length [10, 11, 12 :: real] = length [Fin 6.0, Fin 3.0, NaN]" by simp
  show ?thesis
    using split_series_partition [OF len, where good = "5.0" and ok = "0.5" and invert = False]
      colours_distinct
    by (simp add: split_series_by_quality_def split_step_def quality_color_def)
qed

subsection \<open>Adapter enumerator\<close>

















subsection \<open>Rate sampler\<close>

text \<open>A tick changes what is kept for an adapter only in the round of that adapter.\<close>

lemma sample_nic_other:
  "nic \<noteq> fst p \<Longrightarrow> nic_view (sample_nic tm p w) nic = nic_view w nic"
  by (cases p) (simp add: sample_nic_def nic_view_def Let_def split: option.splits)

lemma sample_nic_cong:
  "nic_last w nic = nic_last w' nic \<Longrightarrow>
   nic_view (sample_nic tm (nic, c) w) nic = nic_view (sample_nic tm (nic, c) w') nic"
  by (simp add: sample_nic_def nic_view_def Let_def split: option.splits)

lemma fold_sample_absent:
  "nic \<notin> fst ` set ps \<Longrightarrow> nic_view (fold (sample_nic tm) ps w) nic = nic_view w nic"
  by (induction ps arbitrary: w) (simp_all add: sample_nic_other)

lemma fold_sample_present:
  "distinct (map fst ps) \<Longrightarrow> (nic, c) \<in> set ps \<Longrightarrow>
   nic_view (fold (sample_nic tm) ps w) nic = nic_view (sample_nic tm (nic, c) w) nic"
proof (induction ps arbitrary: w)
  case Nil
  then show ?case by simp
next
  case (Cons p ps)
  show ?case
  proof (cases "p = (nic, c)")
    case True
    with Cons.prems have "nic \<notin> fst ` set ps" by auto
    then show ?thesis using True by (simp add: fold_sample_absent)
  next
    case False
    with Cons.prems have in_ps: "(nic, c) \<in> set ps" and ne: "nic \<noteq> fst p"
      by (auto simp add: image_iff)
    have "nic_view (fold (sample_nic tm) ps (sample_nic tm p w)) nic =
          nic_view (sample_nic tm (nic, c) (sample_nic tm p w)) nic"
      using Cons.IH Cons.prems(1) in_ps by simp
    also have "\<dots> = nic_view (sample_nic tm (nic, c) w) nic"
      using sample_nic_other [OF ne, of tm w]
      by (intro sample_nic_cong) (simp add: nic_view_def)
    finally show ?thesis by simp
  qed
qed

lemma sample_nic_active:
  "sample_nic tm p (w\<lparr>active_adapter := a\<rparr>) = (sample_nic tm p w)\<lparr>active_adapter := a\<rparr>"
  by (cases p) (simp add: sample_nic_def Let_def split: option.splits)

lemma fold_sample_active:
  "fold (sample_nic tm) ps (w\<lparr>active_adapter := a\<rparr>) = (fold (sample_nic tm) ps w)\<lparr>active_adapter := a\<rparr>"
  by (induction ps arbitrary: w) (simp_all add: sample_nic_active)

lemma tick_stats_view:
  "nic_view (tick_stats inp w) nic = nic_view (fold (sample_nic (tmono inp)) (pernic inp) w) nic"
  by (simp add: tick_stats_def sample_all_def Let_def nic_view_def fold_sample_active)

lemma tick_stats_nic:
  assumes "distinct (map fst (pernic inp))" and "(nic, c) \<in> set (pernic inp)"
  shows "nic_view (tick_stats inp w) nic = nic_view (sample_nic (tmono inp) (nic, c) w) nic"
  using assms by (simp add: tick_stats_view fold_sample_present)

lemma rate_nonneg: "0 \<le> real_of_int (max 0 d) * 8 / max 0.050 t / 1000000"
  by (simp add: max_def)

lemma tick_stats_baseline:
  assumes "distinct (map fst (pernic inp))" and "(nic, c) \<in> set (pernic inp)"
  shows "nic_last (tick_stats inp w) nic = Some (bytes_sent c, bytes_recv c, tmono inp)"
proof -
  have "nic_view (tick_stats inp w) nic = nic_view (sample_nic (tmono inp) (nic, c) w) nic"
    using assms by (rule tick_stats_nic)
  then show ?thesis
    by (simp add: nic_view_def sample_nic_def Let_def split: option.splits)
qed

lemma eth0_tick_simps:
  "pernic (eth0_tick s r t) = [(''eth0'', \<lparr>bytes_sent = s, bytes_recv = r\<rparr>)]"
  "tmono (eth0_tick s r t) = t"
  "twall (eth0_tick s r t) = t"
  by (simp_all add: eth0_tick_def)

lemma eth0_baseline:
  "nic_last (tick_stats (eth0_tick s r t) w) ''eth0'' = Some (s, r, t)"
  using tick_stats_baseline [of "eth0_tick s r t" "''eth0''" "\<lparr>bytes_sent = s, bytes_recv = r\<rparr>" w]
  by (simp add: eth0_tick_simps)

text \<open>
  Claim C1. For an adapter that was seen in a previous tick (it has a baseline) and that
  the tick reports, the stored up, down and total rates are those of the reference
  definition: \<open>dt = max(0.050, now - lastTimestamp)\<close>, the byte deltas clamped at zero,
  \<open>up = deltaSent * 8 / dt / 1e6\<close>, \<open>down = deltaRecv * 8 / dt / 1e6\<close> and
  \<open>total = up + down\<close>. For counters moving from 1,000,000 to 2,000,000 sent and from
  5,000,000 to 7,000,000 received over 1.0 s the rates are 8.0, 16.0 and 24.0.
\<close>

theorem tick_stats_rates_seen:
  assumes "distinct (map fst (pernic inp))" and "(nic, c) \<in> set (pernic inp)"
    and "nic_last w nic = Some (psent, precv, ptm)"
  shows "(case rate_ref (tmono inp) (bytes_sent c) (bytes_recv c) ptm psent precv of
            (upMbps, downMbps, totalMbps) \<Rightarrow>
              nic_speed_up_mbps (tick_stats inp w) nic = Some upMbps \<and>
              nic_speed_down_mbps (tick_stats inp w) nic = Some downMbps \<and>
              nic_speed_total_mbps (tick_stats inp w) nic = Some totalMbps \<and>
              totalMbps = upMbps + downMbps) \<and>
         rate_ref 1.0 2000000 7000000 0.0 1000000 5000000 = (8.0, 16.0, 24.0)"
proof -
  have "nic_view (tick_stats inp w) nic = nic_view (sample_nic (tmono inp) (nic, c) w) nic"
    using assms(1,2) by (rule tick_stats_nic)
  moreover have "0 \<le> real_of_int (max 0 d) * 8 / max 0.050 t / 1000000" for d t
    by (rule rate_nonneg)
  ultimately show ?thesis
    using assms(3)
    by (simp add: nic_view_def sample_nic_def rate_ref_def Let_def max_absorb2)
qed

theorem tick_stats_rates_seen_witness:
  "nic_speed_up_mbps
     (tick_stats (eth0_tick 2000000 7000000 101.0)
       (tick_stats (eth0_tick 1000000 5000000 100.0)
         (init_window ''active'' ''active'' (eth0_tick 0 0 99.0)))) ''eth0'' = Some 8.0 \<and>
   nic_speed_down_mbps
     (tick_stats (eth0_tick 2000000 7000000 101.0)
       (tick_stats (eth0_tick 1000000 5000000 100.0)
         (init_window ''active'' ''active'' (eth0_tick 0 0 99.0)))) ''eth0'' = Some 16.0 \<and>
   nic_speed_total_mbps
     (tick_stats (eth0_tick 2000000 7000000 101.0)
       (tick_stats (eth0_tick 1000000 5000000 100.0)
         (init_window ''active'' ''active'' (eth0_tick 0 0 99.0)))) ''eth0'' = Some 24.0"
proof -
  let ?inp = "eth0_tick 2000000 7000000 101.0"
  let ?w1 = "tick_stats (eth0_tick 1000000 5000000 100.0)
         (init_window ''active'' ''active'' (eth0_tick 0 0 99.0))"
  have d: "distinct (map fst (pernic ?inp))" by (simp add: eth0_tick_simps)
  have m: "(''eth0'', \<lparr>bytes_sent = 2000000, bytes_recv = 7000000\<rparr>) \<in> set (pernic ?inp)"
    by (simp add: eth0_tick_simps)
  have l: "nic_last ?w1 ''eth0'' = Some (1000000, 5000000, 100.0)" by (rule eth0_baseline)
  from tick_stats_rates_seen [OF d m l] show ?thesis
    by (simp add: rate_ref_def eth0_tick_simps)
qed

text \<open>The rates stay non-negative in every round of the loop, hence in every tick.\<close>

lemma sample_nic_nonneg: "rates_nonneg w \<Longrightarrow> rates_nonneg (sample_nic tm p w)"
  by (cases p) (auto simp add: rates_nonneg_def sample_nic_def Let_def split: option.splits)

lemma fold_sample_nonneg: "rates_nonneg w \<Longrightarrow> rates_nonneg (fold (sample_nic tm) ps w)"
  by (induction ps arbitrary: w) (simp_all add: sample_nic_nonneg)

lemma rates_nonneg_view:
  "(\<And>nic. nic_view w' nic = nic_view w nic) \<Longrightarrow> rates_nonneg w \<Longrightarrow> rates_nonneg w'"
  by (simp add: rates_nonneg_def nic_view_def)

lemma tick_stats_nonneg: "rates_nonneg w \<Longrightarrow> rates_nonneg (tick_stats inp w)"
  using rates_nonneg_view [of "tick_stats inp w", OF tick_stats_view] fold_sample_nonneg
  by blast

lemma reachable_nonneg: "reachable w k \<Longrightarrow> rates_nonneg w"
proof (induction rule: reachable.induct)
  case (start simple graph inp)
  show ?case by (simp add: rates_nonneg_def init_window_def)
next
  case (stats_tick w k inp)
  then show ?case by (simp add: tick_stats_nonneg)
next
  case (ping_tick w k)
  then show ?case by (simp add: rates_nonneg_def request_ping_def)
next
  case (ping_done w k ms)
  then show ?case by (simp add: rates_nonneg_def on_ping_done_def split: option.splits)
next
  case (settings w k simple graph)
  then show ?case by (simp add: rates_nonneg_def)
qed

text \<open>
  Claim C2. In every reachable state the stored up, down and total rates of every adapter
  are non-negative. When a counter of an adapter with a baseline has decreased, the tick
  stores the rate 0 for it: the delta is clamped to zero.
\<close>

theorem rates_never_negative:
  assumes "reachable w k"
  shows "(\<forall>nic r. nic_speed_up_mbps w nic = Some r \<longrightarrow> 0 \<le> r) \<and>
         (\<forall>nic r. nic_speed_down_mbps w nic = Some r \<longrightarrow> 0 \<le> r) \<and>
         (\<forall>nic r. nic_speed_total_mbps w nic = Some r \<longrightarrow> 0 \<le> r) \<and>
         (distinct (map fst (pernic inp)) \<and> (nic, c) \<in> set (pernic inp) \<and>
          nic_last w nic = Some (psent, precv, ptm) \<longrightarrow>
            (bytes_sent c < psent \<longrightarrow> nic_speed_up_mbps (tick_stats inp w) nic = Some 0) \<and>
            (bytes_recv c < precv \<longrightarrow> nic_speed_down_mbps (tick_stats inp w) nic = Some 0) \<and>
            (bytes_sent c < psent \<and> bytes_recv c < precv \<longrightarrow>
               nic_speed_total_mbps (tick_stats inp w) nic = Some 0))"
proof -
  have inv: "rates_nonneg w" using assms by (rule reachable_nonneg)
  have clamp: "(bytes_sent c < psent \<longrightarrow> nic_speed_up_mbps (tick_stats inp w) nic = Some 0) \<and>
            (bytes_recv c < precv \<longrightarrow> nic_speed_down_mbps (tick_stats inp w) nic = Some 0) \<and>
            (bytes_sent c < psent \<and> bytes_recv c < precv \<longrightarrow>
               nic_speed_total_mbps (tick_stats inp w) nic = Some 0)"
    if h: "distinct (map fst (pernic inp))" "(nic, c) \<in> set (pernic inp)"
      "nic_last w nic = Some (psent, precv, ptm)"
  proof -
    have "nic_view (tick_stats inp w) nic = nic_view (sample_nic (tmono inp) (nic, c) w) nic"
      using h(1,2) by (rule tick_stats_nic)
    then show ?thesis
      using h(3) by (simp add: nic_view_def sample_nic_def Let_def max_def)
  qed
  from inv clamp show ?thesis
    unfolding rates_nonneg_def by blast
qed

theorem rates_never_negative_witness:
  "nic_speed_up_mbps
     (tick_stats (eth0_tick 500 7000000 101.0)
       (tick_stats (eth0_tick 1000000 5000000 100.0)
         (init_window ''active'' ''active'' (eth0_tick 0 0 99.0)))) ''eth0'' = Some 0"
proof -
  let ?inp = "eth0_tick 500 7000000 101.0"
  let ?w1 = "tick_stats (eth0_tick 1000000 5000000 100.0)
         (init_window ''active'' ''active'' (eth0_tick 0 0 99.0))"
  have r: "reachable ?w1 0" by (intro reachable.stats_tick reachable.start)
  have d: "distinct (map fst (pernic ?inp))" by (simp add: eth0_tick_simps)
  have m: "(''eth0'', \<lparr>bytes_sent = 500, bytes_recv = 7000000\<rparr>) \<in> set (pernic ?inp)"
    by (simp add: eth0_tick_simps)
  have l: "nic_last ?w1 ''eth0'' = Some (1000000, 5000000, 100.0)" by (rule eth0_baseline)
  from rates_never_negative [OF r, where inp = ?inp and nic = "''eth0''"
      and c = "\<lparr>bytes_sent = 500, bytes_recv = 7000000\<rparr>"
      and psent = 1000000 and precv = 5000000 and ptm = "100.0"] d m l
  show ?thesis by simp
qed

text \<open>
  Claim C3. A tick records the observed counters and the monotonic time as the baseline
  of every adapter it reports, whether the adapter was seen before or not; for an adapter
  not seen before the three rates stored by that tick are 0.0.
\<close>

theorem tick_stats_first_seen:
  assumes "distinct (map fst (pernic inp))" and "(nic, c) \<in> set (pernic inp)"
  shows "nic_last (tick_stats inp w) nic = Some (bytes_sent c, bytes_recv c, tmono inp) \<and>
         (nic_last w nic = None \<longrightarrow>
            nic_speed_up_mbps (tick_stats inp w) nic = Some 0.0 \<and>
            nic_speed_down_mbps (tick_stats inp w) nic = Some 0.0 \<and>
            nic_speed_total_mbps (tick_stats inp w) nic = Some 0.0)"
proof -
  have "nic_view (tick_stats inp w) nic = nic_view (sample_nic (tmono inp) (nic, c) w) nic"
    using assms by (rule tick_stats_nic)
  then show ?thesis
    by (simp add: nic_view_def sample_nic_def Let_def split: option.splits)
qed

theorem tick_stats_first_seen_witness:
  "nic_last (tick_stats (eth0_tick 500 300 100.0)
       (init_window ''active'' ''active'' (eth0_tick 0 0 99.0))) ''eth0'' = Some (500, 300, 100.0) \<and>
   nic_speed_up_mbps (tick_stats (eth0_tick 500 300 100.0)
       (init_window ''active'' ''active'' (eth0_tick 0 0 99.0))) ''eth0'' = Some 0.0 \<and>
   nic_speed_down_mbps (tick_stats (eth0_tick 500 300 100.0)
       (init_window ''active'' ''active'' (eth0_tick 0 0 99.0))) ''eth0'' = Some 0.0 \<and>
   nic_speed_total_mbps (tick_stats (eth0_tick 500 300 100.0)
       (init_window ''active'' ''active'' (eth0_tick 0 0 99.0))) ''eth0'' = Some 0.0"
proof -
  let ?inp = "eth0_tick 500 300 100.0"
  let ?w0 = "init_window ''active'' ''active'' (eth0_tick 0 0 99.0)"
  have d: "distinct (map fst (pernic ?inp))" by (simp add: eth0_tick_simps)
  have m: "(''eth0'', \<lparr>bytes_sent = 500, bytes_recv = 300\<rparr>) \<in> set (pernic ?inp)"
    by (simp add: eth0_tick_simps)
  have n: "nic_last ?w0 ''eth0'' = None" by (simp add: init_window_def)
  from tick_stats_first_seen [OF d m, of ?w0] n show ?thesis
    by (simp add: eth0_tick_simps)
qed

subsection \<open>History buffers\<close>

text \<open>The sampler loop leaves the counters, the last latency and the buffers alone.\<close>

lemma sample_nic_frame:
  "ping_sent (sample_nic tm p w) = ping_sent w"
  "ping_ok (sample_nic tm p w) = ping_ok w"
  "ping_fail (sample_nic tm p w) = ping_fail w"
  "last_ping_ms (sample_nic tm p w) = last_ping_ms w"
  "t_hist (sample_nic tm p w) = t_hist w"
  "mbps_hist (sample_nic tm p w) = mbps_hist w"
  "ping_hist (sample_nic tm p w) = ping_hist w"
  "simple_hist_total (sample_nic tm p w) = simple_hist_total w"
  "simple_hist_down (sample_nic tm p w) = simple_hist_down w"
  "simple_hist_up (sample_nic tm p w) = simple_hist_up w"
  by (cases p; simp add: sample_nic_def Let_def split: option.splits)+

lemma fold_sample_frame:
  "ping_sent (fold (sample_nic tm) ps w) = ping_sent w"
  "ping_ok (fold (sample_nic tm) ps w) = ping_ok w"
  "ping_fail (fold (sample_nic tm) ps w) = ping_fail w"
  "last_ping_ms (fold (sample_nic tm) ps w) = last_ping_ms w"
  "t_hist (fold (sample_nic tm) ps w) = t_hist w"
  "mbps_hist (fold (sample_nic tm) ps w) = mbps_hist w"
  "ping_hist (fold (sample_nic tm) ps w) = ping_hist w"
  "simple_hist_total (fold (sample_nic tm) ps w) = simple_hist_total w"
  "simple_hist_down (fold (sample_nic tm) ps w) = simple_hist_down w"
  "simple_hist_up (fold (sample_nic tm) ps w) = simple_hist_up w"
  by (induction ps arbitrary: w; simp add: sample_nic_frame)+

lemma sample_all_frame:
  "ping_sent (sample_all inp w) = ping_sent w"
  "ping_ok (sample_all inp w) = ping_ok w"
  "ping_fail (sample_all inp w) = ping_fail w"
  "last_ping_ms (sample_all inp w) = last_ping_ms w"
  "t_hist (sample_all inp w) = t_hist w"
  "mbps_hist (sample_all inp w) = mbps_hist w"
  "ping_hist (sample_all inp w) = ping_hist w"
  "simple_hist_total (sample_all inp w) = simple_hist_total w"
  "simple_hist_down (sample_all inp w) = simple_hist_down w"
  "simple_hist_up (sample_all inp w) = simple_hist_up w"
  by (simp_all add: sample_all_def fold_sample_frame)

lemma deque_append_full:
  assumes "length (items d) = maxlen d" and "0 < maxlen d"
  shows "items (deque_append d x) = tl (items d) @ [x]"
    and "maxlen (deque_append d x) = maxlen d"
    and "length (items (deque_append d x)) = maxlen d"
proof -
  from assms have ne: "items d \<noteq> []" by auto
  show "items (deque_append d x) = tl (items d) @ [x]"
    using assms ne by (simp add: deque_append_def Let_def)
  show "maxlen (deque_append d x) = maxlen d"
    by (simp add: deque_append_def Let_def)
  show "length (items (deque_append d x)) = maxlen d"
    using assms ne by (simp add: deque_append_def Let_def)
qed

lemma fold_sample_len:
  "simple_smooth_len (fold (sample_nic tm) ps w) = simple_smooth_len w"
  "buf_len (fold (sample_nic tm) ps w) = buf_len w"
  by (induction ps arbitrary: w;
      simp add: sample_nic_def Let_def split: option.splits prod.splits)+

lemma sample_all_len:
  "simple_smooth_len (sample_all inp w) = simple_smooth_len w"
  "buf_len (sample_all inp w) = buf_len w"
  by (simp_all add: sample_all_def fold_sample_len)

lemma tick_stats_hist:
  "simple_hist_total (tick_stats inp w) =
     deque_append (simple_hist_total w) (last_mbps_simple_total (tick_stats inp w))"
  "simple_hist_down (tick_stats inp w) =
     deque_append (simple_hist_down w) (last_mbps_simple_down (tick_stats inp w))"
  "simple_hist_up (tick_stats inp w) =
     deque_append (simple_hist_up w) (last_mbps_simple_up (tick_stats inp w))"
  "t_hist (tick_stats inp w) = deque_append (t_hist w) (twall inp)"
  "mbps_hist (tick_stats inp w) =
     deque_append (mbps_hist w) (last_mbps_graph_total (tick_stats inp w))"
  "ping_hist (tick_stats inp w) =
     deque_append (ping_hist w)
       (case last_ping_ms w of None \<Rightarrow> NaN | Some ms \<Rightarrow> Fin (real_of_int ms))"
  "simple_smooth_len (tick_stats inp w) = simple_smooth_len w"
  "buf_len (tick_stats inp w) = buf_len w"
  by (simp_all add: tick_stats_def Let_def sample_all_frame sample_all_len)

lemma tick_stats_bufs_full: "bufs_full w \<Longrightarrow> bufs_full (tick_stats inp w)"
  by (simp add: bufs_full_def tick_stats_hist deque_append_full)

lemma reachable_bufs_full: "reachable w k \<Longrightarrow> bufs_full w"
proof (induction rule: reachable.induct)
  case (start simple graph inp)
  show ?case by (simp add: bufs_full_def init_window_def deque_init_def)
next
  case (stats_tick w k inp)
  then show ?case by (simp add: tick_stats_bufs_full)
next
  case (ping_tick w k)
  then show ?case by (simp add: bufs_full_def request_ping_def)
next
  case (ping_done w k ms)
  then show ?case by (simp add: bufs_full_def on_ping_done_def split: option.splits)
next
  case (settings w k simple graph)
  then show ?case by (simp add: bufs_full_def)
qed

lemma fold_tick_bufs_full: "bufs_full w \<Longrightarrow> bufs_full (fold tick_stats inps w)"
  by (induction inps arbitrary: w) (simp_all add: tick_stats_bufs_full)

lemma fold_tick_t_hist:
  "bufs_full w \<Longrightarrow>
   items (t_hist (fold tick_stats inps w)) =
     drop (length inps) (items (t_hist w) @ map twall inps)"
proof (induction inps arbitrary: w)
  case Nil
  then show ?case by simp
next
  case (Cons inp inps)
  from Cons.prems have full: "length (items (t_hist w)) = maxlen (t_hist w)" "0 < maxlen (t_hist w)"
    by (simp_all add: bufs_full_def)
  then have ne: "items (t_hist w) \<noteq> []" by auto
  have "items (t_hist (fold tick_stats (inp # inps) w)) =
        drop (length inps) (items (t_hist (tick_stats inp w)) @ map twall inps)"
    using Cons.IH [OF tick_stats_bufs_full [OF Cons.prems]] by simp
  also have "items (t_hist (tick_stats inp w)) = tl (items (t_hist w)) @ [twall inp]"
    using full by (simp add: tick_stats_hist deque_append_full)
  also have "drop (length inps) ((tl (items (t_hist w)) @ [twall inp]) @ map twall inps) =
        drop (length (inp # inps)) (items (t_hist w) @ map twall (inp # inps))"
    using ne by (cases "items (t_hist w)") simp_all
  finally show ?case .
qed

text \<open>
  Claim C8. In every reachable state the three smoothing windows hold exactly 10 values
  and the time, rate and latency buffers exactly 240. At creation they are filled with
  placeholders: zero rates, the creation time, not-a-number for the latency. Each tick
  appends one sample to each buffer and evicts exactly the oldest. After 241 ticks the
  time buffer still holds 240 samples: those of the last 240 ticks, the first one gone.
\<close>

theorem history_buffers_full:
  assumes "reachable w k"
  shows "simple_smooth_len w = 10 \<and> buf_len w = 240 \<and>
         length (items (simple_hist_total w)) = simple_smooth_len w \<and>
         length (items (simple_hist_down w)) = simple_smooth_len w \<and>
         length (items (simple_hist_up w)) = simple_smooth_len w \<and>
         length (items (t_hist w)) = buf_len w \<and>
         length (items (mbps_hist w)) = buf_len w \<and>
         length (items (ping_hist w)) = buf_len w \<and>
         items (simple_hist_total (init_window simple graph inp0)) = replicate 10 0.0 \<and>
         items (simple_hist_down (init_window simple graph inp0)) = replicate 10 0.0 \<and>
         items (simple_hist_up (init_window simple graph inp0)) = replicate 10 0.0 \<and>
         items (t_hist (init_window simple graph inp0)) = replicate 240 (twall inp0) \<and>
         items (mbps_hist (init_window simple graph inp0)) = replicate 240 0.0 \<and>
         items (ping_hist (init_window simple graph inp0)) = replicate 240 NaN \<and>
         items (simple_hist_total (tick_stats inp w)) =
           tl (items (simple_hist_total w)) @ [last_mbps_simple_total (tick_stats inp w)] \<and>
         items (simple_hist_down (tick_stats inp w)) =
           tl (items (simple_hist_down w)) @ [last_mbps_simple_down (tick_stats inp w)] \<and>
         items (simple_hist_up (tick_stats inp w)) =
           tl (items (simple_hist_up w)) @ [last_mbps_simple_up (tick_stats inp w)] \<and>
         items (t_hist (tick_stats inp w)) = tl (items (t_hist w)) @ [twall inp] \<and>
         items (mbps_hist (tick_stats inp w)) =
           tl (items (mbps_hist w)) @ [last_mbps_graph_total (tick_stats inp w)] \<and>
         items (ping_hist (tick_stats inp w)) =
           tl (items (ping_hist w)) @
             [case last_ping_ms w of None \<Rightarrow> NaN | Some ms \<Rightarrow> Fin (real_of_int ms)] \<and>
         (length inps = buf_len w + 1 \<longrightarrow>
            length (items (t_hist (fold tick_stats inps w))) = buf_len w \<and>
            items (t_hist (fold tick_stats inps w)) = tl (map twall inps))"
proof -
  have full: "bufs_full w" using assms by (rule reachable_bufs_full)
  have init: "items (simple_hist_total (init_window simple graph inp0)) = replicate 10 0.0 \<and>
         items (simple_hist_down (init_window simple graph inp0)) = replicate 10 0.0 \<and>
         items (simple_hist_up (init_window simple graph inp0)) = replicate 10 0.0 \<and>
         items (t_hist (init_window simple graph inp0)) = replicate 240 (twall inp0) \<and>
         items (mbps_hist (init_window simple graph inp0)) = replicate 240 0.0 \<and>
         items (ping_hist (init_window simple graph inp0)) = replicate 240 NaN"
    by (simp add: init_window_def deque_init_def)
  have many: "length (items (t_hist (fold tick_stats inps w))) = buf_len w \<and>
            items (t_hist (fold tick_stats inps w)) = tl (map twall inps)"
    if len: "length inps = buf_len w + 1"
  proof -
    have "items (t_hist (fold tick_stats inps w)) =
            drop (length inps) (items (t_hist w) @ map twall inps)"
      using full by (rule fold_tick_t_hist)
    also have "\<dots> = drop 1 (map twall inps)"
      using full len by (simp add: bufs_full_def)
    finally have "items (t_hist (fold tick_stats inps w)) = tl (map twall inps)"
      by (simp add: drop_Suc)
    then show ?thesis using len by simp
  qed
  from full init many show ?thesis
    by (simp add: bufs_full_def tick_stats_hist deque_append_full)
qed

theorem history_buffers_full_witness:
  "length (items (t_hist (fold tick_stats (map (\<lambda>i. eth0_tick 0 0 (real i)) [0..<241])
       (init_window ''active'' ''active'' (eth0_tick 0 0 99.0))))) = 240 \<and>
   items (t_hist (fold tick_stats (map (\<lambda>i. eth0_tick 0 0 (real i)) [0..<241])
       (init_window ''active'' ''active'' (eth0_tick 0 0 99.0)))) =
     tl (map twall (map (\<lambda>i. eth0_tick 0 0 (real i)) [0..<241]))"
proof -
  let ?init = "init_window ''active'' ''active'' (eth0_tick 0 0 99.0)"
  let ?inps = "map (\<lambda>i. eth0_tick 0 0 (real i)) [0..<241]"
  have r0: "reachable ?init 0" by (rule reachable.start)
  have b: "buf_len ?init = 240" by (simp add: init_window_def)
  have len: "length ?inps = buf_len ?init + 1" unfolding b by simp
  have "length ?inps = buf_len ?init + 1 \<longrightarrow>
          length (items (t_hist (fold tick_stats ?inps ?init))) = buf_len ?init \<and>
          items (t_hist (fold tick_stats ?inps ?init)) = tl (map twall ?inps)"
    using history_buffers_full [OF r0, where inps = ?inps and simple = "''active''"
        and graph = "''active''" and inp0 = "eth0_tick 0 0 99.0" and inp = "eth0_tick 0 0 99.0"]
    by blast
  with len show ?thesis unfolding b by blast
qed

subsection \<open>Probe counters\<close>

lemma reachable_counters: "reachable w k \<Longrightarrow> ping_sent w = ping_ok w + ping_fail w + int k"
proof (induction rule: reachable.induct)
  case (start simple graph inp)
  show ?case by (simp add: init_window_def)
next
  case (stats_tick w k inp)
  then show ?case by (simp add: tick_stats_def Let_def sample_all_frame)
next
  case (ping_tick w k)
  then show ?case by (simp add: request_ping_def)
next
  case (ping_done w k ms)
  then show ?case by (simp add: on_ping_done_def split: option.splits)
next
  case (settings w k simple graph)
  then show ?case by simp
qed

text \<open>
  Claim C10. In every reachable state \<open>ping_sent\<close> is \<open>ping_ok + ping_fail\<close> plus the
  number of probes in flight, hence at least \<open>ping_ok + ping_fail\<close>. A dispatch adds one
  to \<open>ping_sent\<close> and leaves the other two counters; a delivery leaves \<open>ping_sent\<close> and
  adds one to \<open>ping_ok\<close> for an integer result, to \<open>ping_fail\<close> for an absent one.
\<close>

theorem probe_counters:
  assumes "reachable w k"
  shows "ping_sent w = ping_ok w + ping_fail w + int k \<and>
         ping_sent w \<ge> ping_ok w + ping_fail w \<and>
         ping_sent (request_ping w) = ping_sent w + 1 \<and>
         ping_ok (request_ping w) = ping_ok w \<and>
         ping_fail (request_ping w) = ping_fail w \<and>
         ping_sent (on_ping_done ms w) = ping_sent w \<and>
         ping_ok (on_ping_done (Some n) w) = ping_ok w + 1 \<and>
         ping_fail (on_ping_done (Some n) w) = ping_fail w \<and>
         ping_ok (on_ping_done None w) = ping_ok w \<and>
         ping_fail (on_ping_done None w) = ping_fail w + 1"
  using reachable_counters [OF assms]
  by (simp add: request_ping_def on_ping_done_def split: option.splits)

theorem probe_counters_witness:
  "ping_sent (on_ping_done (Some 23) (request_ping (request_ping
      (init_window ''active'' ''active'' (eth0_tick 0 0 99.0))))) = 2 \<and>
   ping_ok (on_ping_done (Some 23) (request_ping (request_ping
      (init_window ''active'' ''active'' (eth0_tick 0 0 99.0))))) = 1 \<and>
   ping_fail (on_ping_done (Some 23) (request_ping (request_ping
      (init_window ''active'' ''active'' (eth0_tick 0 0 99.0))))) = 0"
proof -
  let ?init = "init_window ''active'' ''active'' (eth0_tick 0 0 99.0)"
  let ?fin = "on_ping_done (Some 23) (request_ping (request_ping ?init))"
  have r0: "reachable ?init 0" by (rule reachable.start)
  have r1: "reachable (request_ping ?init) (Suc 0)" by (rule reachable.ping_tick [OF r0])
  have r2: "reachable (request_ping (request_ping ?init)) (Suc (Suc 0))"
    by (rule reachable.ping_tick [OF r1])
  have r3: "reachable ?fin (Suc 0)" by (rule reachable.ping_done [OF r2])
  have inv: "ping_sent ?fin = ping_ok ?fin + ping_fail ?fin + int (Suc 0)"
    by (rule probe_counters [OF r3, THEN conjunct1])
  have ok: "ping_ok ?fin = 1"
    by (simp add: on_ping_done_def request_ping_def init_window_def)
  have fail: "ping_fail ?fin = 0"
    by (simp add: on_ping_done_def request_ping_def init_window_def)
  from inv show ?thesis unfolding ok fail by simp
qed

subsection \<open>Latency prober\<close>




























end
